theory Spec2Isabelle
  imports Complex_Main
begin

section \<open>Python values, errors and float arithmetic\<close>

text \<open>
  The controller of \<^verbatim>\<open>deskconn/components/brightness.py\<close> computes with Python ints
  (unbounded) and Python floats (IEEE 754 binary64). A float is modelled by the rational
  number it denotes, or one of the three special values; every arithmetic operation
  rounds its exact result to the nearest double, ties to even, as the hardware does.
\<close>

datatype error =
  AssertionError | TypeError | ValueError | OverflowError | ZeroDivisionError | OSError

datatype pyfloat = Finite rat | PosInf | NegInf | NaN

datatype pyval = PyInt int | PyFloat pyfloat | PyStr string | PyNone

text \<open>Number of binary digits of a positive integer (Python's \<^verbatim>\<open>int.bit_length\<close>).\<close>

function bit_length :: "int \<Rightarrow> nat" where
  "bit_length k = (if k \<le> 0 then 0 else Suc (bit_length (k div 2)))"
  by pat_completeness auto
termination
  by (relation "measure nat") auto

declare bit_length.simps [simp del]

text \<open>The binary exponent of a positive rational: \<open>2 powi ilog2 x \<le> x < 2 powi (ilog2 x + 1)\<close>.\<close>

definition ilog2 :: "rat \<Rightarrow> int" where
  "ilog2 x =
     (let (a, b) = quotient_of x;
          d = int (bit_length a) - int (bit_length b)
      in if 2 powi d \<le> x then d else d - 1)"

definition round_half_even :: "rat \<Rightarrow> int" where
  "round_half_even x =
     (let f = \<lfloor>x\<rfloor>; r = x - of_int f
      in if r < 1 / 2 then f
         else if 1 / 2 < r then f + 1
         else if even f then f else f + 1)"

text \<open>
  The exponent of the unit in the last place: 53 significant bits for a normal number,
  the fixed spacing \<open>2 powi (- 1074)\<close> in the subnormal range.
\<close>

definition ulp_exponent :: "rat \<Rightarrow> int" where
  "ulp_exponent x = max (ilog2 \<bar>x\<bar> - 52) (- 1074)"

text \<open>Rounding to the nearest double, before the check for overflow.\<close>

definition round_double :: "rat \<Rightarrow> rat" where
  "round_double x =
     (if x = 0 then 0
      else let e = ulp_exponent x
           in of_int (round_half_even (x / 2 powi e)) * 2 powi e)"

text \<open>A rounded result of magnitude \<open>2 ^ 1024\<close> or more is beyond the largest double.\<close>

definition overflows :: "rat \<Rightarrow> bool" where
  "overflows r = (r \<noteq> 0 \<and> 1024 \<le> ilog2 \<bar>r\<bar>)"

text \<open>Float operations that do not raise deliver an infinity on overflow.\<close>

definition to_float :: "rat \<Rightarrow> pyfloat" where
  "to_float x =
     (let r = round_double x
      in if overflows r then (if 0 < r then PosInf else NegInf) else Finite r)"

text \<open>\<^verbatim>\<open>float(n)\<close> for an int, as done implicitly when an int meets a float.\<close>

definition float_of_int :: "int \<Rightarrow> error + pyfloat" where
  "float_of_int n =
     (let r = round_double (of_int n)
      in if overflows r then Inl OverflowError else Inr (Finite r))"

text \<open>\<^verbatim>\<open>a / b\<close> for two ints: the correctly rounded quotient.\<close>

definition int_truediv :: "int \<Rightarrow> int \<Rightarrow> error + pyfloat" where
  "int_truediv a b =
     (if b = 0 then Inl ZeroDivisionError
      else let r = round_double (of_int a / of_int b)
           in if overflows r then Inl OverflowError else Inr (Finite r))"

fun float_mul :: "pyfloat \<Rightarrow> pyfloat \<Rightarrow> pyfloat" where
  "float_mul NaN _ = NaN"
| "float_mul _ NaN = NaN"
| "float_mul (Finite x) (Finite y) = to_float (x * y)"
| "float_mul (Finite x) PosInf = (if x = 0 then NaN else if 0 < x then PosInf else NegInf)"
| "float_mul (Finite x) NegInf = (if x = 0 then NaN else if 0 < x then NegInf else PosInf)"
| "float_mul PosInf (Finite y) = (if y = 0 then NaN else if 0 < y then PosInf else NegInf)"
| "float_mul NegInf (Finite y) = (if y = 0 then NaN else if 0 < y then NegInf else PosInf)"
| "float_mul PosInf PosInf = PosInf"
| "float_mul PosInf NegInf = NegInf"
| "float_mul NegInf PosInf = NegInf"
| "float_mul NegInf NegInf = PosInf"

fun float_quotient :: "pyfloat \<Rightarrow> pyfloat \<Rightarrow> pyfloat" where
  "float_quotient NaN _ = NaN"
| "float_quotient _ NaN = NaN"
| "float_quotient (Finite x) (Finite y) = to_float (x / y)"
| "float_quotient (Finite x) _ = Finite 0"
| "float_quotient PosInf (Finite y) = (if 0 < y then PosInf else NegInf)"
| "float_quotient NegInf (Finite y) = (if 0 < y then NegInf else PosInf)"
| "float_quotient _ _ = NaN"

text \<open>\<^verbatim>\<open>f / g\<close> for two floats raises on a zero divisor.\<close>

definition float_div :: "pyfloat \<Rightarrow> pyfloat \<Rightarrow> error + pyfloat" where
  "float_div f g = (if g = Finite 0 then Inl ZeroDivisionError else Inr (float_quotient f g))"

text \<open>\<^verbatim>\<open>f * n\<close> and \<^verbatim>\<open>f / n\<close> for a float and an int: the int is converted first.\<close>

definition float_mul_int :: "pyfloat \<Rightarrow> int \<Rightarrow> error + pyfloat" where
  "float_mul_int f n =
     (case float_of_int n of Inl e \<Rightarrow> Inl e | Inr g \<Rightarrow> Inr (float_mul f g))"

definition float_div_int :: "pyfloat \<Rightarrow> int \<Rightarrow> error + pyfloat" where
  "float_div_int f n =
     (case float_of_int n of Inl e \<Rightarrow> Inl e | Inr g \<Rightarrow> float_div f g)"

text \<open>Truncation toward zero, and \<^verbatim>\<open>int(f)\<close>.\<close>

definition trunc :: "rat \<Rightarrow> int" where
  "trunc x = (if 0 \<le> x then \<lfloor>x\<rfloor> else \<lceil>x\<rceil>)"

fun int_of_float :: "pyfloat \<Rightarrow> error + int" where
  "int_of_float (Finite x) = Inr (trunc x)"
| "int_of_float NaN = Inl ValueError"
| "int_of_float _ = Inl OverflowError"

text \<open>\<^verbatim>\<open>math.modf(f)\<close>: the fractional and the integral part, both floats.\<close>

fun modf :: "pyfloat \<Rightarrow> pyfloat \<times> pyfloat" where
  "modf (Finite x) = (Finite (x - of_int (trunc x)), Finite (of_int (trunc x)))"
| "modf PosInf = (Finite 0, PosInf)"
| "modf NegInf = (Finite 0, NegInf)"
| "modf NaN = (NaN, NaN)"

text \<open>
  \<^verbatim>\<open>isinstance(value, int) or isinstance(value, float)\<close>. A Python bool is an int
  and is covered by \<open>PyInt\<close>.
\<close>

fun is_number :: "pyval \<Rightarrow> bool" where
  "is_number (PyInt _) = True"
| "is_number (PyFloat _) = True"
| "is_number _ = False"

text \<open>
  \<^verbatim>\<open>value < n\<close> and \<^verbatim>\<open>value > n\<close> against an int literal. Python compares an int
  and a float by their exact values; every comparison with a NaN is false. The
  comparisons are only reached by numbers: the assertion before them stops anything else.
\<close>

fun py_lt :: "pyval \<Rightarrow> int \<Rightarrow> bool" where
  "py_lt (PyInt k) n = (k < n)"
| "py_lt (PyFloat (Finite x)) n = (x < of_int n)"
| "py_lt (PyFloat NegInf) n = True"
| "py_lt _ n = False"

fun py_gt :: "pyval \<Rightarrow> int \<Rightarrow> bool" where
  "py_gt (PyInt k) n = (n < k)"
| "py_gt (PyFloat (Finite x)) n = (of_int n < x)"
| "py_gt (PyFloat PosInf) n = True"
| "py_gt _ n = False"

text \<open>\<^verbatim>\<open>value / n\<close> for a number and an int literal.\<close>

fun py_truediv :: "pyval \<Rightarrow> int \<Rightarrow> error + pyfloat" where
  "py_truediv (PyInt k) n = int_truediv k n"
| "py_truediv (PyFloat f) n = float_div_int f n"
| "py_truediv _ n = Inl TypeError"

section \<open>The brightness controller\<close>

definition BRIGHTNESS_STEP :: int where
  "BRIGHTNESS_STEP = 25"

text \<open>
  \<^verbatim>\<open>
  def validate_and_sanitize_brightness_value(self, value):
      assert (isinstance(value, int) or isinstance(value, float)), '...'
      if value < 1:
          return 1
      if value > 100:
          return 100
      return value
  \<close>
\<close>

definition validate_and_sanitize_brightness_value :: "pyval \<Rightarrow> error + pyval" where
  "validate_and_sanitize_brightness_value v =
     (if \<not> is_number v then Inl AssertionError
      else if py_lt v 1 then Inr (PyInt 1)
      else if py_gt v 100 then Inr (PyInt 100)
      else Inr v)"

text \<open>
  \<^verbatim>\<open>
  def percent_to_internal(self, percent):
      validated = self.validate_and_sanitize_brightness_value(percent)
      return int((validated / 100) * self.max_brightness)
  \<close>
\<close>

definition percent_to_internal :: "int \<Rightarrow> pyval \<Rightarrow> error + int" where
  "percent_to_internal max_brightness percent =
     (case validate_and_sanitize_brightness_value percent of
        Inl e \<Rightarrow> Inl e
      | Inr validated \<Rightarrow>
          (case py_truediv validated 100 of
             Inl e \<Rightarrow> Inl e
           | Inr q \<Rightarrow>
               (case float_mul_int q max_brightness of
                  Inl e \<Rightarrow> Inl e
                | Inr f \<Rightarrow> int_of_float f)))"



text \<open>
  The controller's mutable state: the content of the device file
  \<^verbatim>\<open>/sys/class/backlight/intel_backlight/brightness\<close> and the flag
  \<^verbatim>\<open>change_in_progress\<close>. Three further fields only observe a run: the log of the
  device writes that succeeded, each with the place in \<^verbatim>\<open>set_brightness\<close> that made
  it, and the numbers of write attempts and of reads of the flag made so far.
\<close>

datatype site = StepWrite | RemainderWrite | CorrectiveWrite

record control =
  brightness_file :: int
  change_in_progress :: bool
  written :: "(site \<times> int) list"
  write_calls :: nat
  flag_reads :: nat

text \<open>
  What a run of \<^verbatim>\<open>set_brightness\<close> does not control. \<open>read_fails\<close>: reading the device
  file raises. \<open>write_fails n\<close>: the write attempt number \<open>n\<close> (counted from 0) raises.
  \<open>flag_assigned n\<close>: what a concurrent call of \<^verbatim>\<open>set_brightness\<close> on another thread
  has last assigned to \<^verbatim>\<open>change_in_progress\<close> since this run's previous access to the
  flag and before its read number \<open>n\<close> (counted from 0); \<open>None\<close> when no concurrent
  assignment happened in between.
\<close>

record world =
  read_fails :: bool
  write_fails :: "nat \<Rightarrow> bool"
  flag_assigned :: "nat \<Rightarrow> bool option"

text \<open>
  \<^verbatim>\<open>
  @property
  def brightness_current(self):
      with open(BRIGHTNESS_CONFIG_FILE) as config_file:
          return int(config_file.read().strip())
  \<close>
\<close>

definition brightness_current :: "world \<Rightarrow> control \<Rightarrow> error + int" where
  "brightness_current w s = (if read_fails w then Inl OSError else Inr (brightness_file s))"

text \<open>
  \<^verbatim>\<open>
  def write_brightness_value(self, value):
      with open(BRIGHTNESS_CONFIG_FILE, 'w') as config_file:
          config_file.write(str(value))
  \<close>
  A write that raises leaves the content of the device file and the log as they were;
  the attempt is counted.
\<close>

definition write_brightness_value ::
  "world \<Rightarrow> site \<Rightarrow> int \<Rightarrow> control \<Rightarrow> (error + unit) \<times> control" where
  "write_brightness_value w place v s =
     (if write_fails w (write_calls s)
      then (Inl OSError, s\<lparr>write_calls := Suc (write_calls s)\<rparr>)
      else (Inr (),
            s\<lparr>brightness_file := v,
              written := written s @ [(place, v)],
              write_calls := Suc (write_calls s)\<rparr>))"

text \<open>Reading \<^verbatim>\<open>self.change_in_progress\<close>, after whatever the other thread did to it.\<close>

definition read_flag :: "world \<Rightarrow> control \<Rightarrow> bool \<times> control" where
  "read_flag w s =
     (let b = (case flag_assigned w (flag_reads s) of
                 None \<Rightarrow> change_in_progress s
               | Some c \<Rightarrow> c)
      in (b, s\<lparr>change_in_progress := b, flag_reads := Suc (flag_reads s)\<rparr>))"

text \<open>
  The loop of either branch, \<open>step\<close> being \<open>BRIGHTNESS_STEP\<close> or its negation
  (\<^verbatim>\<open>time.sleep(0.02)\<close> has no effect on the state):
  \<^verbatim>\<open>
  for i in range(int(full_steps)):
      if not self.change_in_progress:
          break
      brightness += BRIGHTNESS_STEP
      self.write_brightness_value(brightness)
      time.sleep(0.02)
  \<close>
\<close>

fun ramp_loop :: "world \<Rightarrow> int \<Rightarrow> nat \<Rightarrow> int \<Rightarrow> control \<Rightarrow> (error + int) \<times> control" where
  "ramp_loop w step 0 brightness s = (Inr brightness, s)"
| "ramp_loop w step (Suc n) brightness s =
     (case read_flag w s of
        (active, s1) \<Rightarrow>
          if \<not> active then (Inr brightness, s1)
          else (case write_brightness_value w StepWrite (brightness + step) s1 of
                  (Inl e, s2) \<Rightarrow> (Inl e, s2)
                | (Inr _, s2) \<Rightarrow> ramp_loop w step n (brightness + step) s2))"

text \<open>
  After the loop, with \<open>sign\<close> being 1 or -1:
  \<^verbatim>\<open>
  if self.change_in_progress:
      brightness += int(decimal_steps * BRIGHTNESS_STEP)
      self.write_brightness_value(brightness)
  \<close>
\<close>

definition remainder_step ::
  "world \<Rightarrow> int \<Rightarrow> pyfloat \<Rightarrow> int \<Rightarrow> control \<Rightarrow> (error + int) \<times> control" where
  "remainder_step w sign decimal_steps brightness s =
     (case read_flag w s of
        (active, s1) \<Rightarrow>
          if active then
            (case float_mul_int decimal_steps BRIGHTNESS_STEP of
               Inl e \<Rightarrow> (Inl e, s1)
             | Inr p \<Rightarrow>
                 (case int_of_float p of
                    Inl e \<Rightarrow> (Inl e, s1)
                  | Inr r \<Rightarrow>
                      (case write_brightness_value w RemainderWrite (brightness + sign * r) s1 of
                         (Inl e, s2) \<Rightarrow> (Inl e, s2)
                       | (Inr _, s2) \<Rightarrow> (Inr (brightness + sign * r), s2))))
          else (Inr brightness, s1))"

text \<open>
  One branch of the \<^verbatim>\<open>if brightness_requested > brightness\<close>, \<open>distance\<close> being the
  non-negative difference of the two values:
  \<^verbatim>\<open>
  decimal_steps, full_steps = math.modf(distance / BRIGHTNESS_STEP)
  for i in range(int(full_steps)): ...
  if self.change_in_progress: ...
  \<close>
\<close>

definition ramp ::
  "world \<Rightarrow> int \<Rightarrow> int \<Rightarrow> int \<Rightarrow> control \<Rightarrow> (error + int) \<times> control" where
  "ramp w sign distance brightness s =
     (case int_truediv distance BRIGHTNESS_STEP of
        Inl e \<Rightarrow> (Inl e, s)
      | Inr q \<Rightarrow>
          (case modf q of
             (decimal_steps, full_steps) \<Rightarrow>
               (case int_of_float full_steps of
                  Inl e \<Rightarrow> (Inl e, s)
                | Inr n \<Rightarrow>
                    (case ramp_loop w (sign * BRIGHTNESS_STEP) (nat n) brightness s of
                       (Inl e, s1) \<Rightarrow> (Inl e, s1)
                     | (Inr b, s1) \<Rightarrow> remainder_step w sign decimal_steps b s1))))"

text \<open>
  \<^verbatim>\<open>
  # Ensure brightness is correct at the end
  if brightness != brightness_requested:
      self.write_brightness_value(brightness_requested)

  self.change_in_progress = False
  \<close>
\<close>

definition finish ::
  "world \<Rightarrow> int \<Rightarrow> int \<Rightarrow> control \<Rightarrow> (error + unit) \<times> control" where
  "finish w brightness brightness_requested s =
     (case (if brightness \<noteq> brightness_requested
            then write_brightness_value w CorrectiveWrite brightness_requested s
            else (Inr (), s)) of
        (Inl e, s1) \<Rightarrow> (Inl e, s1)
      | (Inr _, s1) \<Rightarrow> (Inr (), s1\<lparr>change_in_progress := False\<rparr>))"

text \<open>
  \<^verbatim>\<open>
  def set_brightness(self, percent):
      brightness_requested = self.percent_to_internal(percent)
      # Abort any in progress change
      self.change_in_progress = False

      brightness = self.brightness_current

      self.change_in_progress = True
      if brightness_requested > brightness:
          ...
      else:
          ...
      ...
  \<close>
  An exception leaves the state as it is at the raise: the function has no handler.
\<close>

definition set_brightness ::
  "int \<Rightarrow> pyval \<Rightarrow> world \<Rightarrow> control \<Rightarrow> (error + unit) \<times> control" where
  "set_brightness max_brightness percent w s =
     (case percent_to_internal max_brightness percent of
        Inl e \<Rightarrow> (Inl e, s)
      | Inr brightness_requested \<Rightarrow>
          (case brightness_current w (s\<lparr>change_in_progress := False\<rparr>) of
             Inl e \<Rightarrow> (Inl e, s\<lparr>change_in_progress := False\<rparr>)
           | Inr brightness \<Rightarrow>
               (case (if brightness_requested > brightness
                      then ramp w 1 (brightness_requested - brightness) brightness
                             (s\<lparr>change_in_progress := True\<rparr>)
                      else ramp w (- 1) (brightness - brightness_requested) brightness
                             (s\<lparr>change_in_progress := True\<rparr>)) of
                  (Inl e, s1) \<Rightarrow> (Inl e, s1)
                | (Inr b, s1) \<Rightarrow> finish w b brightness_requested s1)))"

section \<open>The component observing the device file\<close>

text \<open>
  The fields of \<^verbatim>\<open>ScreenBrightnessComponent\<close> that its handlers use, and the list of
  the events handed to \<^verbatim>\<open>self.publish\<close>, each a percentage and a publisher.
\<close>

record component =
  publisher_id :: "string option"
  requested_value_internal :: int
  last_value :: int
  published :: "(int \<times> string option) list"

text \<open>The fields as \<^verbatim>\<open>__init__\<close> sets them.\<close>

definition init_component :: component where
  "init_component =
     \<lparr>publisher_id = None, requested_value_internal = - 1, last_value = - 1, published = []\<rparr>"

text \<open>\<^verbatim>\<open>int((current_value / self.controller.max_brightness) * 100)\<close>\<close>

definition percentage_of :: "int \<Rightarrow> int \<Rightarrow> error + int" where
  "percentage_of max_brightness current_value =
     (case int_truediv current_value max_brightness of
        Inl e \<Rightarrow> Inl e
      | Inr q \<Rightarrow>
          (case float_mul_int q 100 of
             Inl e \<Rightarrow> Inl e
           | Inr f \<Rightarrow> int_of_float f))"

text \<open>
  The inotify callback; \<open>file_content\<close> is what opening, reading and parsing the device
  file gives at that moment.
  \<^verbatim>\<open>
  def publish_brightness_changed(self, _ignored, file_path, _mask):
      with open(file_path.path) as file:
          current_value = int(file.read().strip())
          if current_value == self._last_value:
              return
          self.publish("org.deskconn.brightness.on_changed",
                       percentage=int((current_value / self.controller.max_brightness) * 100),
                       publisher_id=self._publisher_id)
          if current_value == self._requested_value_internal:
              self._publisher_id = None
          self._last_value = current_value
  \<close>
\<close>

definition publish_brightness_changed ::
  "int \<Rightarrow> error + int \<Rightarrow> component \<Rightarrow> (error + unit) \<times> component" where
  "publish_brightness_changed max_brightness file_content c =
     (case file_content of
        Inl e \<Rightarrow> (Inl e, c)
      | Inr current_value \<Rightarrow>
          if current_value = last_value c then (Inr (), c)
          else (case percentage_of max_brightness current_value of
                  Inl e \<Rightarrow> (Inl e, c)
                | Inr percentage \<Rightarrow>
                    (let c1 = c\<lparr>published := published c @ [(percentage, publisher_id c)]\<rparr>;
                         c2 = (if current_value = requested_value_internal c1
                               then c1\<lparr>publisher_id := None\<rparr> else c1)
                     in (Inr (), c2\<lparr>last_value := current_value\<rparr>))))"

text \<open>The callback run once for each of a sequence of observed raw values.\<close>

fun observe_all :: "int \<Rightarrow> int list \<Rightarrow> component \<Rightarrow> component" where
  "observe_all max_brightness [] c = c"
| "observe_all max_brightness (v # vs) c =
     observe_all max_brightness vs (snd (publish_brightness_changed max_brightness (Inr v) c))"

text \<open>
  The body that the component's \<^verbatim>\<open>set_brightness\<close> defers to a thread:
  \<^verbatim>\<open>
  def actually_set_brightness(percent, pub_id):
      self._publisher_id = pub_id
      self._requested_value_internal = self.controller.percent_to_internal(percent)
      self.controller.set_brightness(percent)
  \<close>
\<close>

definition actually_set_brightness ::
  "int \<Rightarrow> pyval \<Rightarrow> string option \<Rightarrow> world \<Rightarrow> component \<times> control \<Rightarrow>
   (error + unit) \<times> component \<times> control" where
  "actually_set_brightness max_brightness percent pub_id w cs =
     (case cs of
        (c, s) \<Rightarrow>
          (case percent_to_internal max_brightness percent of
             Inl e \<Rightarrow> (Inl e, c\<lparr>publisher_id := pub_id\<rparr>, s)
           | Inr v \<Rightarrow>
               (case set_brightness max_brightness percent w s of
                  (r, s1) \<Rightarrow>
                    (r, c\<lparr>publisher_id := pub_id, requested_value_internal := v\<rparr>, s1))))"


section \<open>Runs, worlds and devices used to state the properties\<close>

text \<open>
  \<open>attempts w failed s s'\<close> relates the state before and after a part of a run: the log
  has grown by the writes that succeeded, each an attempt that the world lets through;
  when \<open>failed\<close> holds, one more write was attempted after them, it is the one the
  world makes fail, and nothing was attempted after it.
\<close>

definition attempts :: "world \<Rightarrow> bool \<Rightarrow> control \<Rightarrow> control \<Rightarrow> bool" where
  "attempts w failed s s' =
     (\<exists>ws. written s' = written s @ ws \<and>
        (\<forall>j<length ws. \<not> write_fails w (write_calls s + j)) \<and>
        (if failed
         then write_calls s' = Suc (write_calls s + length ws) \<and>
              write_fails w (write_calls s + length ws)
         else write_calls s' = write_calls s + length ws))"

text \<open>
  A world in which nothing fails and no other call runs, one in which a single write
  attempt fails, and one in which another call clears the flag before a given read of it
  and leaves it cleared. A device holding a raw value, with no change in progress.
\<close>

definition undisturbed :: world where
  "undisturbed = \<lparr>read_fails = False, write_fails = (\<lambda>n. False), flag_assigned = (\<lambda>n. None)\<rparr>"

definition write_fails_at :: "nat \<Rightarrow> world" where
  "write_fails_at k = undisturbed\<lparr>write_fails := (\<lambda>n. n = k)\<rparr>"

definition cancelled_at :: "nat \<Rightarrow> world" where
  "cancelled_at k = undisturbed\<lparr>flag_assigned := (\<lambda>n. if n = k then Some False else None)\<rparr>"

definition device_at :: "int \<Rightarrow> control" where
  "device_at v =
     \<lparr>brightness_file = v, change_in_progress = False, written = [],
      write_calls = 0, flag_reads = 0\<rparr>"

section \<open>Facts about rounding\<close>

lemma bit_length_bounds:
  "0 < k \<Longrightarrow> 2 ^ (bit_length k - 1) \<le> k \<and> k < 2 ^ bit_length k"
proof (induction k rule: bit_length.induct)
  case (1 k)
  show ?case
  proof (cases "k = 1")
    case True
    then show ?thesis by (simp add: bit_length.simps)
  next
    case False
    with "1.prems" have pos: "0 < k div 2" by simp
    have not: "\<not> k \<le> 0" using "1.prems" by simp
    from "1.IH"[OF not pos] have lo: "2 ^ (bit_length (k div 2) - 1) \<le> k div 2"
      and hi: "k div 2 < 2 ^ bit_length (k div 2)" by simp_all
    have bl: "bit_length k = Suc (bit_length (k div 2))"
      using not by (subst bit_length.simps) simp
    have nz: "0 < bit_length (k div 2)"
      using pos by (subst bit_length.simps) simp
    then obtain n where n: "bit_length (k div 2) = Suc n"
      by (cases "bit_length (k div 2)") simp_all
    have "2 * 2 ^ n \<le> 2 * (k div 2)" using lo n by simp
    also have "\<dots> \<le> k" by simp
    finally have a: "2 ^ (bit_length k - 1) \<le> k" by (simp add: bl n)
    have "k < 2 * (k div 2) + 2" by presburger
    also have "\<dots> \<le> 2 * 2 ^ bit_length (k div 2)" using hi by simp
    finally have b: "k < 2 ^ bit_length k" by (simp add: bl)
    from a b show ?thesis by simp
  qed
qed

lemma bit_length_pos: "0 < k \<Longrightarrow> 0 < bit_length k"
  by (subst bit_length.simps) simp

lemma ilog2_bounds:
  assumes "0 < x"
  shows "2 powi ilog2 x \<le> x \<and> x < 2 powi (ilog2 x + 1)"
proof -
  obtain a b where q: "quotient_of x = (a, b)" by (cases "quotient_of x")
  then have b: "0 < b" and x: "x = of_int a / of_int b"
    using quotient_of_denom_pos quotient_of_div by blast+
  with assms have a: "0 < a" by (simp add: zero_less_divide_iff)
  define la lb where "la = bit_length a" and "lb = bit_length b"
  define d where "d = int la - int lb"
  have la: "0 < la" and lb: "0 < lb"
    using a b by (simp_all add: la_def lb_def bit_length_pos)
  have a1: "(2::rat) ^ (la - 1) \<le> of_int a" and a2: "of_int a < (2::rat) ^ la"
    using bit_length_bounds[OF a] unfolding la_def
    by (metis of_int_le_iff of_int_numeral of_int_power, metis of_int_less_iff of_int_numeral of_int_power)
  have b1: "(2::rat) ^ (lb - 1) \<le> of_int b" and b2: "of_int b < (2::rat) ^ lb"
    using bit_length_bounds[OF b] unfolding lb_def
    by (metis of_int_le_iff of_int_numeral of_int_power, metis of_int_less_iff of_int_numeral of_int_power)
  have bpos: "(0::rat) < of_int b" using b by simp
  have up: "x < 2 powi (d + 1)"
  proof -
    have "of_int a * (2::rat) ^ (lb - 1) < 2 ^ la * of_int b"
      using a1 a2 b1 b2 a b
      by (meson less_le_trans mult_strict_right_mono mult_left_mono zero_le_numeral zero_le_power zero_less_numeral zero_less_power of_int_0_less_iff)
    then have "x < 2 ^ la / 2 ^ (lb - 1)"
      unfolding x using bpos by (simp add: field_simps)
    also have "\<dots> = 2 powi (int la - int (lb - 1))"
      by (simp add: power_int_diff)
    also have "int la - int (lb - 1) = d + 1" using lb by (simp add: d_def)
    finally show ?thesis .
  qed
  have lo: "2 powi (d - 1) \<le> x"
  proof -
    have "(2::rat) ^ (la - 1) * of_int b \<le> of_int a * 2 ^ lb"
      using a1 a2 b1 b2 a b
      by (meson less_imp_le mult_mono of_int_0_le_iff zero_le_numeral zero_le_power order_less_imp_le)
    then have "2 ^ (la - 1) / 2 ^ lb \<le> x"
      unfolding x using bpos by (simp add: field_simps)
    moreover have "(2::rat) ^ (la - 1) / 2 ^ lb = 2 powi (int (la - 1) - int lb)"
      by (simp add: power_int_diff)
    moreover have "int (la - 1) - int lb = d - 1" using la by (simp add: d_def)
    ultimately show ?thesis by simp
  qed
  have il: "ilog2 x = (if 2 powi d \<le> x then d else d - 1)"
    by (simp add: ilog2_def q d_def la_def lb_def Let_def)
  show ?thesis
  proof (cases "2 powi d \<le> x")
    case True
    then show ?thesis using up il by simp
  next
    case False
    then show ?thesis using lo il by simp
  qed
qed



lemma powi2_less_cancel:
  assumes "(2::rat) powi m < 2 powi n"
  shows "m < n"
proof (rule ccontr)
  assume "\<not> m < n"
  then have "n \<le> m" by simp
  then have "(2::rat) powi n \<le> 2 powi m" by (rule power_int_increasing) simp
  with assms show False by simp
qed

lemma ilog2_unique:
  assumes "0 < x" "2 powi e \<le> x" "x < 2 powi (e + 1)"
  shows "ilog2 x = e"
proof -
  from ilog2_bounds[OF assms(1)]
  have l: "2 powi ilog2 x \<le> x" and u: "x < 2 powi (ilog2 x + 1)" by simp_all
  have "(2::rat) powi e < 2 powi (ilog2 x + 1)" using assms(2) u by simp
  then have 1: "e < ilog2 x + 1" by (rule powi2_less_cancel)
  have "(2::rat) powi ilog2 x < 2 powi (e + 1)" using assms(3) l by simp
  then have 2: "ilog2 x < e + 1" by (rule powi2_less_cancel)
  from 1 2 show ?thesis by simp
qed

lemma round_half_even_of_int [simp]: "round_half_even (of_int n) = n"
  by (simp add: round_half_even_def)

lemma round_half_even_bounds:
  "of_int (round_half_even x) \<le> x + 1 / 2 \<and> x - 1 / 2 \<le> of_int (round_half_even x)"
  unfolding round_half_even_def Let_def
  by (auto simp: not_less) linarith+

lemma round_half_even_mono:
  assumes "x \<le> y"
  shows "round_half_even x \<le> round_half_even y"
proof (cases "\<lfloor>x\<rfloor> = \<lfloor>y\<rfloor>")
  case True
  then show ?thesis using assms
    unfolding round_half_even_def Let_def by auto
next
  case False
  with assms have "\<lfloor>x\<rfloor> < \<lfloor>y\<rfloor>" by (simp add: floor_mono order_neq_le_trans)
  then have "\<lfloor>x\<rfloor> + 1 \<le> \<lfloor>y\<rfloor>" by simp
  moreover have "round_half_even x \<le> \<lfloor>x\<rfloor> + 1"
    unfolding round_half_even_def Let_def by auto
  moreover have "\<lfloor>y\<rfloor> \<le> round_half_even y"
    unfolding round_half_even_def Let_def by auto
  ultimately show ?thesis by linarith
qed

lemma round_half_even_ge:
  "of_int n \<le> x \<Longrightarrow> n \<le> round_half_even x"
  using round_half_even_mono[of "of_int n" x] by simp

lemma round_half_even_le:
  "x \<le> of_int n \<Longrightarrow> round_half_even x \<le> n"
  using round_half_even_mono[of x "of_int n"] by simp


lemma ilog2_mono:
  assumes "0 < x" "x \<le> y"
  shows "ilog2 x \<le> ilog2 y"
proof -
  have y: "0 < y" using assms by simp
  have "2 powi ilog2 x \<le> x" using ilog2_bounds[OF assms(1)] by simp
  also have "x \<le> y" by fact
  also have "y < 2 powi (ilog2 y + 1)" using ilog2_bounds[OF y] by simp
  finally have "ilog2 x < ilog2 y + 1" by (rule powi2_less_cancel)
  then show ?thesis by simp
qed

lemma ulp_exponent_mono:
  "0 < x \<Longrightarrow> x \<le> y \<Longrightarrow> ulp_exponent x \<le> ulp_exponent y"
  using ilog2_mono[of x y] by (simp add: ulp_exponent_def)

lemma scaled_less:
  assumes "0 < x"
  shows "x / 2 powi ulp_exponent x < 2 ^ 53"
proof -
  let ?e = "ulp_exponent x"
  have "ilog2 x + 1 \<le> ?e + 53" using assms by (simp add: ulp_exponent_def)
  then have "(2::rat) powi (ilog2 x + 1) \<le> 2 powi (?e + 53)"
    by (rule power_int_increasing) simp
  with ilog2_bounds[OF assms] have "x < 2 powi (?e + 53)" by simp
  also have "\<dots> = 2 powi ?e * 2 ^ 53" by (simp add: power_int_add)
  finally show ?thesis by (simp add: field_simps)
qed

lemma scaled_ge:
  assumes "0 < x" "- 1074 < ulp_exponent x"
  shows "2 ^ 52 \<le> x / 2 powi ulp_exponent x"
proof -
  let ?e = "ulp_exponent x"
  have e: "ilog2 x = ?e + 52" using assms by (simp add: ulp_exponent_def max_def split: if_splits)
  have "2 powi (?e + 52) \<le> x" using ilog2_bounds[OF assms(1)] e by simp
  moreover have "(2::rat) powi (?e + 52) = 2 powi ?e * 2 ^ 52" by (simp add: power_int_add)
  ultimately show ?thesis by (simp add: field_simps)
qed

lemma round_double_pos_eq:
  "0 < x \<Longrightarrow>
   round_double x = of_int (round_half_even (x / 2 powi ulp_exponent x)) * 2 powi ulp_exponent x"
  by (simp add: round_double_def Let_def)

lemma round_double_nonneg:
  assumes "0 \<le> x"
  shows "0 \<le> round_double x"
proof (cases "x = 0")
  case True
  then show ?thesis by (simp add: round_double_def)
next
  case False
  with assms have x: "0 < x" by simp
  have "of_int 0 \<le> x / 2 powi ulp_exponent x" using x by simp
  then have "0 \<le> round_half_even (x / 2 powi ulp_exponent x)"
    by (rule round_half_even_ge)
  then show ?thesis by (simp add: round_double_pos_eq[OF x])
qed

lemma round_double_mono:
  assumes "0 \<le> x" "x \<le> y"
  shows "round_double x \<le> round_double y"
proof (cases "x = 0")
  case True
  then show ?thesis using round_double_nonneg[of y] assms by (simp add: round_double_def)
next
  case False
  with assms have x: "0 < x" and y: "0 < y" by simp_all
  let ?ex = "ulp_exponent x" and ?ey = "ulp_exponent y"
  have le: "?ex \<le> ?ey" using x assms(2) by (rule ulp_exponent_mono)
  show ?thesis
  proof (cases "?ex = ?ey")
    case True
    have "x / 2 powi ?ey \<le> y / 2 powi ?ey"
      using assms(2) by (simp add: divide_right_mono)
    then have "round_half_even (x / 2 powi ?ey) \<le> round_half_even (y / 2 powi ?ey)"
      by (rule round_half_even_mono)
    then have "(of_int (round_half_even (x / 2 powi ?ey)) :: rat) * 2 powi ?ey
        \<le> of_int (round_half_even (y / 2 powi ?ey)) * 2 powi ?ey"
      by (simp add: mult_right_mono)
    then show ?thesis
      using True by (simp add: round_double_pos_eq[OF x] round_double_pos_eq[OF y])
  next
    case False
    with le have lt: "?ex + 1 \<le> ?ey" by simp
    have low: "- 1074 < ?ey" using lt by (simp add: ulp_exponent_def)
    have "x / 2 powi ?ex \<le> of_int (2 ^ 53)" using scaled_less[OF x] by simp
    then have "round_half_even (x / 2 powi ?ex) \<le> 2 ^ 53" by (rule round_half_even_le)
    then have "(of_int (round_half_even (x / 2 powi ?ex)) :: rat) \<le> 2 ^ 53"
      by (metis of_int_le_iff of_int_numeral of_int_power)
    then have "round_double x \<le> 2 ^ 53 * 2 powi ?ex"
      by (simp add: round_double_pos_eq[OF x] mult_right_mono)
    also have "\<dots> = 2 ^ 52 * 2 powi (?ex + 1)" by (simp add: power_int_add)
    also have "\<dots> \<le> 2 ^ 52 * 2 powi ?ey"
      using lt by (simp add: power_int_increasing)
    also have "\<dots> \<le> round_double y"
    proof -
      have "of_int (2 ^ 52) \<le> y / 2 powi ?ey" using scaled_ge[OF y low] by simp
      then have "2 ^ 52 \<le> round_half_even (y / 2 powi ?ey)" by (rule round_half_even_ge)
      then have "(2 ^ 52 :: rat) \<le> of_int (round_half_even (y / 2 powi ?ey))"
        by (metis of_int_le_iff of_int_numeral of_int_power)
      then show ?thesis by (simp add: round_double_pos_eq[OF y] mult_right_mono)
    qed
    finally show ?thesis .
  qed
qed

lemma round_double_representable:
  assumes "0 < m" "m < 2 ^ 53" "- 1074 \<le> k"
  shows "round_double (of_int m * 2 powi k) = of_int m * 2 powi k"
proof -
  let ?x = "of_int m * (2::rat) powi k"
  have x: "0 < ?x" using assms(1) by simp
  let ?e = "ulp_exponent ?x"
  have "(of_int m :: rat) < 2 ^ 53" using assms(2)
    by (metis of_int_less_iff of_int_numeral of_int_power)
  then have "?x < 2 ^ 53 * 2 powi k" by (simp add: mult_strict_right_mono)
  also have "\<dots> = 2 powi (k + 53)" by (simp add: power_int_add)
  finally have "2 powi ilog2 ?x < (2::rat) powi (k + 53)"
    using ilog2_bounds[OF x] by simp
  then have "ilog2 ?x < k + 53" by (rule powi2_less_cancel)
  then have e: "?e \<le> k" using assms(3) x by (simp add: ulp_exponent_def)
  have split: "(2::rat) powi k = 2 ^ nat (k - ?e) * 2 powi ?e"
  proof -
    have "(2::rat) powi k = 2 powi (k - ?e) * 2 powi ?e" by (simp flip: power_int_add)
    also have "(2::rat) powi (k - ?e) = 2 ^ nat (k - ?e)" using e by (simp add: power_int_def)
    finally show ?thesis .
  qed
  have "?x / 2 powi ?e = of_int m * 2 ^ nat (k - ?e) * (2 powi ?e / 2 powi ?e)"
    by (subst split) simp
  also have "\<dots> = of_int (m * 2 ^ nat (k - ?e))" by simp
  finally have "?x / 2 powi ?e = of_int (m * 2 ^ nat (k - ?e))" .
  then have "round_half_even (?x / 2 powi ?e) = m * 2 ^ nat (k - ?e)"
    by (simp only: round_half_even_of_int)
  then have "round_double ?x = of_int (m * 2 ^ nat (k - ?e)) * 2 powi ?e"
    by (simp only: round_double_pos_eq[OF x])
  also have "\<dots> = of_int m * (2 powi (k - ?e) * 2 powi ?e)"
    using e by (simp add: power_int_def)
  also have "\<dots> = ?x" by (simp flip: power_int_add)
  finally show ?thesis .
qed

lemma round_double_of_int:
  assumes "0 \<le> n" "n < 2 ^ 53"
  shows "round_double (of_int n) = of_int n"
proof (cases "n = 0")
  case True
  then show ?thesis by (simp add: round_double_def)
next
  case False
  with assms have "0 < n" by simp
  from round_double_representable[OF this assms(2), of 0] show ?thesis by simp
qed

lemma round_double_power2:
  "round_double (2 ^ k) = 2 ^ k"
  using round_double_representable[of 1 "int k"] by simp

lemma round_double_of_int_le:
  assumes "0 \<le> n" "n \<le> 2 ^ 53"
  shows "round_double (of_int n) = of_int n"
proof (cases "n = 2 ^ 53")
  case True
  then show ?thesis using round_double_power2[of 53] by simp
next
  case False
  with assms have "n < 2 ^ 53" by simp
  with assms(1) show ?thesis by (rule round_double_of_int)
qed

lemma not_overflows:
  assumes "0 \<le> r" "r < 2 ^ 1024"
  shows "\<not> overflows r"
proof (cases "r = 0")
  case True
  then show ?thesis by (simp add: overflows_def)
next
  case False
  with assms have r: "0 < r" by simp
  have "2 powi ilog2 r \<le> r" using ilog2_bounds[OF r] by simp
  also have "r < 2 powi 1024" using assms(2) by simp
  finally have "ilog2 r < 1024" by (rule powi2_less_cancel)
  then show ?thesis using r by (simp add: overflows_def)
qed

lemma round_double_small:
  assumes "0 \<le> x" "x \<le> 2 ^ 1023"
  shows "0 \<le> round_double x \<and> \<not> overflows (round_double x)"
proof -
  have "round_double x \<le> round_double (2 ^ 1023)" using assms by (rule round_double_mono)
  then have "round_double x \<le> 2 ^ 1023" by (simp only: round_double_power2)
  then have "round_double x < 2 ^ 1024" by simp
  with round_double_nonneg[OF assms(1)] show ?thesis by (simp add: not_overflows)
qed

lemma to_float_small:
  "0 \<le> x \<Longrightarrow> x \<le> 2 ^ 1023 \<Longrightarrow> to_float x = Finite (round_double x)"
  using round_double_small[of x] by (simp add: to_float_def Let_def)

lemma int_truediv_small:
  "b \<noteq> 0 \<Longrightarrow> 0 \<le> (of_int a / of_int b :: rat) \<Longrightarrow> (of_int a / of_int b :: rat) \<le> 2 ^ 1023 \<Longrightarrow>
   int_truediv a b = Inr (Finite (round_double (of_int a / of_int b)))"
  using round_double_small[of "of_int a / of_int b"] by (simp add: int_truediv_def Let_def)

lemma float_of_int_small:
  assumes "0 \<le> n" "n \<le> 2 ^ 53"
  shows "float_of_int n = Inr (Finite (of_int n))"
proof -
  have "(of_int n :: rat) \<le> of_int (2 ^ 53)" using assms(2) by (simp only: of_int_le_iff)
  then have "(of_int n :: rat) \<le> 2 ^ 53" by simp
  also have "\<dots> \<le> 2 ^ 1023" by simp
  finally have "\<not> overflows (round_double (of_int n))"
    using round_double_small[of "of_int n"] assms(1) by simp
  then show ?thesis
    by (simp add: float_of_int_def Let_def round_double_of_int_le[OF assms])
qed

lemma trunc_of_int [simp]: "trunc (of_int n) = n"
  by (simp add: trunc_def)




lemma one_le_huge: "(1::rat) \<le> 2 ^ 1023"
  by (rule one_le_power) simp

lemma small_le_huge: "(2::rat) ^ 53 \<le> 2 ^ 1023"
  by (rule power_increasing) simp_all

lemma round_double_unit:
  assumes "0 \<le> x" "x \<le> 1"
  shows "0 \<le> round_double x \<and> round_double x \<le> 1"
proof -
  have "round_double x \<le> round_double 1" using assms by (rule round_double_mono)
  moreover have "round_double 1 = 1" using round_double_power2[of 0] by simp
  ultimately show ?thesis using round_double_nonneg[OF assms(1)] by simp
qed

lemma float_of_int_100 [simp]: "float_of_int 100 = Inr (Finite 100)"
  using float_of_int_small[of 100] by simp

lemma float_of_int_25 [simp]: "float_of_int 25 = Inr (Finite 25)"
  using float_of_int_small[of 25] by simp


section \<open>Input validation\<close>

text \<open>
  C8. For every numeric input, \<open>validate_and_sanitize_brightness_value\<close> returns 1 when
  the value is below 1, returns 100 when it is above 100, and returns the value unchanged
  when it lies between 1 and 100; no numeric input makes it raise. The statement covers
  ints, finite floats and the two infinities.
\<close>

theorem validate_and_sanitize_clamps:
  "(n < 1 \<longrightarrow> validate_and_sanitize_brightness_value (PyInt n) = Inr (PyInt 1)) \<and>
   (100 < n \<longrightarrow> validate_and_sanitize_brightness_value (PyInt n) = Inr (PyInt 100)) \<and>
   (1 \<le> n \<and> n \<le> 100 \<longrightarrow> validate_and_sanitize_brightness_value (PyInt n) = Inr (PyInt n)) \<and>
   (x < 1 \<longrightarrow> validate_and_sanitize_brightness_value (PyFloat (Finite x)) = Inr (PyInt 1)) \<and>
   (100 < x \<longrightarrow> validate_and_sanitize_brightness_value (PyFloat (Finite x)) = Inr (PyInt 100)) \<and>
   (1 \<le> x \<and> x \<le> 100 \<longrightarrow>
      validate_and_sanitize_brightness_value (PyFloat (Finite x)) = Inr (PyFloat (Finite x))) \<and>
   validate_and_sanitize_brightness_value (PyFloat NegInf) = Inr (PyInt 1) \<and>
   validate_and_sanitize_brightness_value (PyFloat PosInf) = Inr (PyInt 100) \<and>
   (is_number v \<longrightarrow> (\<exists>r. validate_and_sanitize_brightness_value v = Inr r))"
  by (simp add: validate_and_sanitize_brightness_value_def)

theorem validate_and_sanitize_clamps_witness:
  "validate_and_sanitize_brightness_value (PyInt (- 7)) = Inr (PyInt 1) \<and>
   validate_and_sanitize_brightness_value (PyInt 250) = Inr (PyInt 100) \<and>
   validate_and_sanitize_brightness_value (PyInt 60) = Inr (PyInt 60) \<and>
   validate_and_sanitize_brightness_value (PyFloat (Finite (1 / 2))) = Inr (PyInt 1) \<and>
   validate_and_sanitize_brightness_value (PyFloat (Finite (201 / 2))) = Inr (PyInt 100) \<and>
   validate_and_sanitize_brightness_value (PyFloat (Finite (121 / 2))) =
     Inr (PyFloat (Finite (121 / 2))) \<and>
   (\<exists>r. validate_and_sanitize_brightness_value (PyFloat NaN) = Inr r)"
  using validate_and_sanitize_clamps [of "- 7" "1 / 2" "PyFloat NaN"]
    validate_and_sanitize_clamps [of 250 "201 / 2" "PyFloat NaN"]
    validate_and_sanitize_clamps [of 60 "121 / 2" "PyFloat NaN"]
  by simp

text \<open>
  C9. For every input that is neither an int nor a float, the assertion of
  \<open>validate_and_sanitize_brightness_value\<close> fails; \<open>percent_to_internal\<close> fails with it,
  and \<open>set_brightness\<close> fails with it before it touches the flag or the device: the
  state, with its log of writes, is the one it was called in.
\<close>

theorem non_number_rejected:
  assumes "\<not> is_number v"
  shows "validate_and_sanitize_brightness_value v = Inl AssertionError \<and>
         percent_to_internal max_brightness v = Inl AssertionError \<and>
         set_brightness max_brightness v w s = (Inl AssertionError, s)"
  using assms
  by (simp add: validate_and_sanitize_brightness_value_def percent_to_internal_def
      set_brightness_def)

theorem non_number_rejected_witness:
  "\<not> is_number (PyStr ''50'') \<and>
   validate_and_sanitize_brightness_value (PyStr ''50'') = Inl AssertionError \<and>
   percent_to_internal 4882 (PyStr ''50'') = Inl AssertionError \<and>
   set_brightness 4882 (PyStr ''50'')
     \<lparr>read_fails = False, write_fails = (\<lambda>n. False), flag_assigned = (\<lambda>n. None)\<rparr>
     \<lparr>brightness_file = 100, change_in_progress = True, written = [],
      write_calls = 0, flag_reads = 0\<rparr> =
   (Inl AssertionError,
    \<lparr>brightness_file = 100, change_in_progress = True, written = [],
     write_calls = 0, flag_reads = 0\<rparr>)"
  using non_number_rejected [of "PyStr ''50''" 4882
      "\<lparr>read_fails = False, write_fails = (\<lambda>n. False), flag_assigned = (\<lambda>n. None)\<rparr>"
      "\<lparr>brightness_file = 100, change_in_progress = True, written = [],
        write_calls = 0, flag_reads = 0\<rparr>"]
  by simp

section \<open>Conversion of a percentage\<close>









section \<open>The ramp of the controller\<close>

lemma write_brightness_value_ok:
  "\<not> write_fails w (write_calls s) \<Longrightarrow>
   write_brightness_value w place v s =
     (Inr (), s\<lparr>brightness_file := v, written := written s @ [(place, v)],
                write_calls := Suc (write_calls s)\<rparr>)"
  by (simp add: write_brightness_value_def)

lemma read_flag_not_cancelled:
  assumes "\<forall>n. flag_assigned w n \<noteq> Some False" "change_in_progress s"
  shows "read_flag w s = (True, s\<lparr>change_in_progress := True, flag_reads := Suc (flag_reads s)\<rparr>)"
proof (cases "flag_assigned w (flag_reads s)")
  case None
  then show ?thesis using assms(2) by (simp add: read_flag_def)
next
  case (Some c)
  with assms(1) have "c" by (metis (full_types))
  then show ?thesis using Some by (simp add: read_flag_def)
qed

lemma ramp_loop_completes:
  assumes "\<forall>n. flag_assigned w n \<noteq> Some False" "\<forall>n. \<not> write_fails w n"
    and "change_in_progress s"
  shows "\<exists>s' ws. ramp_loop w step n b s = (Inr (b + int n * step), s') \<and>
           change_in_progress s' \<and> written s' = written s @ ws"
  using assms(3)
proof (induction n arbitrary: b s)
  case 0
  then show ?case by simp
next
  case (Suc n)
  let ?s1 = "s\<lparr>change_in_progress := True, flag_reads := Suc (flag_reads s)\<rparr>"
  let ?s2 = "?s1\<lparr>brightness_file := b + step, written := written ?s1 @ [(StepWrite, b + step)],
                write_calls := Suc (write_calls ?s1)\<rparr>"
  have r: "read_flag w s = (True, ?s1)"
    using assms(1) Suc.prems by (rule read_flag_not_cancelled)
  have wr: "write_brightness_value w StepWrite (b + step) ?s1 = (Inr (), ?s2)"
    using assms(2) by (intro write_brightness_value_ok) simp
  have "change_in_progress ?s2" by simp
  from Suc.IH[OF this, of "b + step"] obtain s' ws where
    "ramp_loop w step n (b + step) ?s2 = (Inr (b + step + int n * step), s')"
    "change_in_progress s'" "written s' = written ?s2 @ ws" by blast
  then show ?case by (simp add: r wr algebra_simps)
qed

lemma remainder_step_completes:
  assumes "\<forall>n. flag_assigned w n \<noteq> Some False" "\<forall>n. \<not> write_fails w n"
    and "change_in_progress s" "0 \<le> f" "f < 1"
  shows "\<exists>s' b'. remainder_step w sign (Finite f) b s = (Inr b', s') \<and>
           written s' = written s @ [(RemainderWrite, b')] \<and> brightness_file s' = b'"
proof -
  let ?s1 = "s\<lparr>change_in_progress := True, flag_reads := Suc (flag_reads s)\<rparr>"
  have r: "read_flag w s = (True, ?s1)"
    using assms(1,3) by (rule read_flag_not_cancelled)
  have a: "0 \<le> f * 25" using assms(4) by simp
  have "f * 25 \<le> 2 ^ 53" using assms(5) by simp
  then have b: "f * 25 \<le> 2 ^ 1023" by (rule order_trans[OF _ small_le_huge])
  have m: "float_mul_int (Finite f) BRIGHTNESS_STEP = Inr (Finite (round_double (f * 25)))"
    by (simp add: float_mul_int_def BRIGHTNESS_STEP_def to_float_small[OF a b])
  show ?thesis
    using assms(2) by (simp add: remainder_step_def r m write_brightness_value_def)
qed

lemma steps_quotient:
  assumes "0 \<le> d" "d < 2 ^ 1024"
  shows "\<exists>q. 0 \<le> q \<and> int_truediv d BRIGHTNESS_STEP = Inr (Finite q)"
proof -
  have a: "(0::rat) \<le> of_int d / of_int 25" using assms(1) by simp
  have "(of_int d :: rat) < of_int (2 ^ 1024)" using assms(2) by (simp only: of_int_less_iff)
  then have "(of_int d :: rat) < 2 ^ 1024" by simp
  also have "(2::rat) ^ 1024 = 2 * 2 ^ 1023" by simp
  also have "\<dots> \<le> 25 * 2 ^ 1023" by simp
  finally have b: "(of_int d / of_int 25 :: rat) \<le> 2 ^ 1023" by simp
  have "int_truediv d 25 = Inr (Finite (round_double (of_int d / of_int 25)))"
    using a b by (intro int_truediv_small) simp_all
  then show ?thesis
    using round_double_nonneg[OF a] by (simp add: BRIGHTNESS_STEP_def)
qed

lemma ramp_completes:
  assumes "\<forall>n. flag_assigned w n \<noteq> Some False" "\<forall>n. \<not> write_fails w n"
    and "change_in_progress s" "0 \<le> d" "d < 2 ^ 1024"
  shows "\<exists>s' b' ws. ramp w sign d b s = (Inr b', s') \<and>
           written s' = written s @ ws @ [(RemainderWrite, b')] \<and> brightness_file s' = b'"
proof -
  obtain q where q: "0 \<le> q" "int_truediv d BRIGHTNESS_STEP = Inr (Finite q)"
    using steps_quotient[OF assms(4,5)] by blast
  have t: "trunc q = \<lfloor>q\<rfloor>" using q(1) by (simp add: trunc_def)
  have f: "0 \<le> q - of_int (trunc q)" "q - of_int (trunc q) < 1"
    unfolding t by linarith+
  define n where "n = nat (trunc q)"
  obtain s1 ws where l:
    "ramp_loop w (sign * BRIGHTNESS_STEP) n b s = (Inr (b + int n * (sign * BRIGHTNESS_STEP)), s1)"
    "change_in_progress s1" "written s1 = written s @ ws"
    using ramp_loop_completes[OF assms(1,2,3)] by blast
  obtain s' b' where r:
    "remainder_step w sign (Finite (q - of_int (trunc q)))
       (b + int n * (sign * BRIGHTNESS_STEP)) s1 = (Inr b', s')"
    "written s' = written s1 @ [(RemainderWrite, b')]" "brightness_file s' = b'"
    using remainder_step_completes[OF assms(1,2) l(2) f] by blast
  have "ramp w sign d b s =
      (case ramp_loop w (sign * BRIGHTNESS_STEP) n b s of
         (Inl e, s1) \<Rightarrow> (Inl e, s1)
       | (Inr c, s1) \<Rightarrow> remainder_step w sign (Finite (q - of_int (trunc q))) c s1)"
    by (simp add: ramp_def q(2) n_def)
  then have "ramp w sign d b s = (Inr b', s')"
    by (simp only: l(1) r(1) prod.case sum.case)
  then show ?thesis using r(2,3) l(3) by simp
qed

text \<open>
  C1. A call of \<open>set_brightness\<close> whose reads of the flag never find it cleared, in
  which no device write and no device read fails, and whose distance to the target is
  small enough for the division by the step not to overflow, returns normally; it has
  written the device at least once, the last value written is
  \<open>percent_to_internal\<close> of the percentage, and that is what the device file holds.
  Nothing is assumed about how the steps and the remainder round.
\<close>

theorem set_brightness_converges:
  assumes "percent_to_internal max_brightness percent = Inr target"
    and "\<not> read_fails w" "\<forall>n. \<not> write_fails w n" "\<forall>n. flag_assigned w n \<noteq> Some False"
    and "\<bar>target - brightness_file s\<bar> < 2 ^ 1024"
  shows "\<exists>s' ws. set_brightness max_brightness percent w s = (Inr (), s') \<and>
           written s' = written s @ ws \<and> ws \<noteq> [] \<and> snd (last ws) = target \<and>
           brightness_file s' = target \<and> \<not> change_in_progress s'"
proof -
  let ?s0 = "s\<lparr>change_in_progress := True\<rparr>"
  let ?b = "brightness_file s"
  let ?run = "if target > ?b then ramp w 1 (target - ?b) ?b ?s0
              else ramp w (- 1) (?b - target) ?b ?s0"
  have act: "change_in_progress ?s0" by simp
  have "\<exists>s1 b1 ws. ?run = (Inr b1, s1) \<and>
          written s1 = written ?s0 @ ws @ [(RemainderWrite, b1)] \<and> brightness_file s1 = b1"
  proof (cases "target > ?b")
    case True
    then have d: "0 \<le> target - ?b" "target - ?b < 2 ^ 1024" using assms(5) by simp_all
    show ?thesis using ramp_completes[OF assms(4,3) act d] True by simp
  next
    case False
    then have d: "0 \<le> ?b - target" "?b - target < 2 ^ 1024" using assms(5) by simp_all
    show ?thesis using ramp_completes[OF assms(4,3) act d] False by simp
  qed
  then obtain s1 b1 ws where run: "?run = (Inr b1, s1)"
    and w1: "written s1 = written s @ ws @ [(RemainderWrite, b1)]"
    and f1: "brightness_file s1 = b1" by auto
  have sb: "set_brightness max_brightness percent w s = finish w b1 target s1"
    using assms(1,2) run by (simp add: set_brightness_def brightness_current_def)
  show ?thesis
  proof (cases "b1 = target")
    case True
    then show ?thesis using w1 f1 by (simp add: sb finish_def)
  next
    case False
    then show ?thesis
      using w1 assms(3) by (simp add: sb finish_def write_brightness_value_def)
  qed
qed

lemma attempts_refl: "attempts w False s s"
  by (simp add: attempts_def)

lemma attempts_trans:
  assumes "attempts w False s s1" "attempts w failed s1 s2"
  shows "attempts w failed s s2"
proof -
  obtain ws1 where 1: "written s1 = written s @ ws1"
    "\<forall>j<length ws1. \<not> write_fails w (write_calls s + j)"
    "write_calls s1 = write_calls s + length ws1"
    using assms(1) by (auto simp: attempts_def)
  obtain ws2 where 2: "written s2 = written s1 @ ws2"
    "\<forall>j<length ws2. \<not> write_fails w (write_calls s1 + j)"
    "if failed
     then write_calls s2 = Suc (write_calls s1 + length ws2) \<and>
          write_fails w (write_calls s1 + length ws2)
     else write_calls s2 = write_calls s1 + length ws2"
    using assms(2) by (auto simp: attempts_def)
  have ok: "\<not> write_fails w (write_calls s + j)" if "j < length (ws1 @ ws2)" for j
  proof (cases "j < length ws1")
    case True
    then show ?thesis using 1(2) by simp
  next
    case False
    then have "j - length ws1 < length ws2" using that by simp
    then have "\<not> write_fails w (write_calls s1 + (j - length ws1))" using 2(2) by simp
    moreover have "write_calls s1 + (j - length ws1) = write_calls s + j"
      using False 1(3) by simp
    ultimately show ?thesis by simp
  qed
  show ?thesis
    unfolding attempts_def
  proof (rule exI[of _ "ws1 @ ws2"], intro conjI)
    show "written s2 = written s @ ws1 @ ws2" using 1(1) 2(1) by simp
    show "\<forall>j<length (ws1 @ ws2). \<not> write_fails w (write_calls s + j)" using ok by blast
    show "if failed
      then write_calls s2 = Suc (write_calls s + length (ws1 @ ws2)) \<and>
           write_fails w (write_calls s + length (ws1 @ ws2))
      else write_calls s2 = write_calls s + length (ws1 @ ws2)"
      using 1(3) 2(3) by (auto simp: add.assoc split: if_splits)
  qed
qed

lemma int_of_float_not_io: "int_of_float f \<noteq> Inl OSError"
  by (cases f) simp_all

lemma float_of_int_not_io: "float_of_int n \<noteq> Inl OSError"
  by (simp add: float_of_int_def Let_def)

lemma float_mul_int_not_io: "float_mul_int f n \<noteq> Inl OSError"
  by (auto simp: float_mul_int_def float_of_int_def Let_def split: if_splits)

lemma int_truediv_not_io: "int_truediv a b \<noteq> Inl OSError"
  by (simp add: int_truediv_def Let_def)

lemma float_div_int_not_io: "float_div_int f n \<noteq> Inl OSError"
  by (auto simp: float_div_int_def float_div_def float_of_int_def Let_def split: if_splits)

lemma py_truediv_not_io: "py_truediv v n \<noteq> Inl OSError"
  by (cases v) (simp_all add: int_truediv_not_io float_div_int_not_io)

lemma percent_to_internal_not_io: "percent_to_internal m p \<noteq> Inl OSError"
proof (cases "validate_and_sanitize_brightness_value p")
  case (Inl e)
  then have "e = AssertionError"
    by (auto simp: validate_and_sanitize_brightness_value_def split: if_splits)
  then show ?thesis using Inl by (simp add: percent_to_internal_def)
next
  case (Inr v)
  note v = Inr
  show ?thesis
  proof (cases "py_truediv v 100")
    case (Inl e)
    then have "e \<noteq> OSError" using py_truediv_not_io by metis
    then show ?thesis using v Inl by (simp add: percent_to_internal_def)
  next
    case (Inr q)
    note q = Inr
    show ?thesis
    proof (cases "float_mul_int q m")
      case (Inl e)
      then have "e \<noteq> OSError" using float_mul_int_not_io by metis
      then show ?thesis using v q Inl by (simp add: percent_to_internal_def)
    next
      case (Inr f)
      then show ?thesis using v q int_of_float_not_io by (simp add: percent_to_internal_def)
    qed
  qed
qed

lemma write_attempt:
  assumes "write_brightness_value w place v s = (r, s')"
  shows "attempts w (r = Inl OSError) s s' \<and> change_in_progress s' = change_in_progress s \<and>
         (\<forall>e. r = Inl e \<longrightarrow> e = OSError)"
  using assms by (auto simp: write_brightness_value_def attempts_def split: if_splits)

lemma read_flag_frame:
  assumes "read_flag w s = (b, s')"
  shows "attempts w False s s' \<and> change_in_progress s' = b \<and>
         ((\<forall>n. flag_assigned w n \<noteq> Some False) \<longrightarrow> change_in_progress s \<longrightarrow> b)"
proof -
  have "(\<forall>n. flag_assigned w n \<noteq> Some False) \<longrightarrow> change_in_progress s \<longrightarrow> b"
    using assms read_flag_not_cancelled[of w s] by auto
  then show ?thesis
    using assms by (auto simp: read_flag_def attempts_def Let_def)
qed

lemma ramp_loop_attempts:
  assumes "ramp_loop w step n b s = (r, s')"
  shows "attempts w (r = Inl OSError) s s' \<and>
         (\<forall>e. r = Inl e \<longrightarrow> e = OSError \<and> change_in_progress s') \<and>
         ((\<forall>n. flag_assigned w n \<noteq> Some False) \<longrightarrow> change_in_progress s \<longrightarrow> change_in_progress s')"
  using assms
proof (induction n arbitrary: b s)
  case 0
  then show ?case by (auto simp: attempts_refl)
next
  case (Suc n)
  obtain a s1 where rf: "read_flag w s = (a, s1)" by (cases "read_flag w s")
  note f1 = read_flag_frame[OF rf]
  show ?case
  proof (cases a)
    case False
    then have "r = Inr b" "s' = s1" using Suc.prems rf by simp_all
    then show ?thesis using f1 False by simp
  next
    case True
    obtain x s2 where wr: "write_brightness_value w StepWrite (b + step) s1 = (x, s2)"
      by (cases "write_brightness_value w StepWrite (b + step) s1")
    note f2 = write_attempt[OF wr]
    show ?thesis
    proof (cases x)
      case (Inl e)
      then have "r = Inl e" "s' = s2" using Suc.prems rf True wr by simp_all
      moreover have "e = OSError" using f2 Inl by simp
      ultimately show ?thesis
        using f1 f2 Inl True attempts_trans[of w s s1 True s2] by auto
    next
      case (Inr u)
      then have rec: "ramp_loop w step n (b + step) s2 = (r, s')"
        using Suc.prems rf True wr by simp
      note f3 = Suc.IH[OF rec]
      have "attempts w False s s2"
        using f1 f2 Inr attempts_trans[of w s s1 False s2] by simp
      then have "attempts w (r = Inl OSError) s s'"
        using f3 attempts_trans by blast
      then show ?thesis using f1 f2 f3 True by auto
    qed
  qed
qed

lemma remainder_step_attempts:
  assumes "remainder_step w sign f b s = (r, s')"
  shows "attempts w (r = Inl OSError) s s' \<and>
         (r = Inl OSError \<longrightarrow> change_in_progress s') \<and>
         ((\<forall>n. flag_assigned w n \<noteq> Some False) \<longrightarrow> change_in_progress s \<longrightarrow> change_in_progress s')"
proof -
  obtain a s1 where rf: "read_flag w s = (a, s1)" by (cases "read_flag w s")
  note f1 = read_flag_frame[OF rf]
  show ?thesis
  proof (cases a)
    case False
    then have "r = Inr b" "s' = s1" using assms rf by (simp_all add: remainder_step_def)
    then show ?thesis using f1 False by simp
  next
    case True
    show ?thesis
    proof (cases "float_mul_int f BRIGHTNESS_STEP")
      case (Inl e)
      then have "r = Inl e" "s' = s1" using assms rf True by (simp_all add: remainder_step_def)
      moreover have "e \<noteq> OSError" using Inl float_mul_int_not_io by metis
      ultimately show ?thesis using f1 True by simp
    next
      case (Inr p)
      show ?thesis
      proof (cases "int_of_float p")
        case (Inl e)
        then have "r = Inl e" "s' = s1"
          using assms rf True Inr by (simp_all add: remainder_step_def)
        moreover have "e \<noteq> OSError" using Inl int_of_float_not_io by metis
        ultimately show ?thesis using f1 True by simp
      next
        case (Inr k)
        obtain x s2 where wr:
          "write_brightness_value w RemainderWrite (b + sign * k) s1 = (x, s2)"
          by (cases "write_brightness_value w RemainderWrite (b + sign * k) s1")
        note f2 = write_attempt[OF wr]
        have res: "(r, s') = (case x of Inl e \<Rightarrow> (Inl e, s2) | Inr _ \<Rightarrow> (Inr (b + sign * k), s2))"
          using assms rf True \<open>float_mul_int f BRIGHTNESS_STEP = Inr p\<close> Inr wr
          by (simp add: remainder_step_def split: sum.splits)
        then have s': "s' = s2" and rx: "(r = Inl OSError) = (x = Inl OSError)"
          by (auto split: sum.splits)
        have "attempts w (x = Inl OSError) s s2"
          using f1 f2 attempts_trans by blast
        then show ?thesis using f1 f2 True s' rx by auto
      qed
    qed
  qed
qed

lemma ramp_attempts:
  assumes "ramp w sign d b s = (r, s')"
  shows "attempts w (r = Inl OSError) s s' \<and>
         (r = Inl OSError \<longrightarrow> change_in_progress s') \<and>
         ((\<forall>n. flag_assigned w n \<noteq> Some False) \<longrightarrow> change_in_progress s \<longrightarrow> change_in_progress s')"
proof (cases "int_truediv d BRIGHTNESS_STEP")
  case (Inl e)
  then have "r = Inl e" "s' = s" using assms by (simp_all add: ramp_def)
  moreover have "e \<noteq> OSError" using Inl int_truediv_not_io by metis
  ultimately show ?thesis by (simp add: attempts_refl)
next
  case (Inr q)
  obtain ds fs where m: "modf q = (ds, fs)" by (cases "modf q")
  show ?thesis
  proof (cases "int_of_float fs")
    case (Inl e)
    then have "r = Inl e" "s' = s" using assms Inr m by (simp_all add: ramp_def)
    moreover have "e \<noteq> OSError" using Inl int_of_float_not_io by metis
    ultimately show ?thesis by (simp add: attempts_refl)
  next
    case (Inr n)
    obtain x s1 where l: "ramp_loop w (sign * BRIGHTNESS_STEP) (nat n) b s = (x, s1)"
      by (cases "ramp_loop w (sign * BRIGHTNESS_STEP) (nat n) b s")
    note f1 = ramp_loop_attempts[OF l]
    show ?thesis
    proof (cases x)
      case (Inl e)
      then have "r = Inl e" "s' = s1"
        using assms \<open>int_truediv d BRIGHTNESS_STEP = Inr q\<close> m Inr l by (simp_all add: ramp_def)
      then show ?thesis using f1 Inl by auto
    next
      case (Inr c)
      then have rs: "remainder_step w sign ds c s1 = (r, s')"
        using assms \<open>int_truediv d BRIGHTNESS_STEP = Inr q\<close> m \<open>int_of_float fs = Inr n\<close> l
        by (simp add: ramp_def)
      note f2 = remainder_step_attempts[OF rs]
      have "attempts w False s s1" using f1 Inr by simp
      then have "attempts w (r = Inl OSError) s s'" using f2 attempts_trans by blast
      then show ?thesis using f1 f2 by auto
    qed
  qed
qed

lemma finish_attempts:
  assumes "finish w b t s = (r, s')"
  shows "attempts w (r = Inl OSError) s s' \<and>
         (r = Inl OSError \<longrightarrow> change_in_progress s' = change_in_progress s)"
proof (cases "b = t")
  case True
  then show ?thesis using assms by (auto simp: finish_def attempts_def)
next
  case False
  obtain x s1 where wr: "write_brightness_value w CorrectiveWrite t s = (x, s1)"
    by (cases "write_brightness_value w CorrectiveWrite t s")
  note f = write_attempt[OF wr]
  show ?thesis
  proof (cases x)
    case (Inl e)
    then have "r = Inl e" "s' = s1" using assms False wr by (simp_all add: finish_def)
    then show ?thesis using f Inl by auto
  next
    case (Inr u)
    then have "r = Inr ()" "s' = s1\<lparr>change_in_progress := False\<rparr>"
      using assms False wr by (simp_all add: finish_def)
    then show ?thesis using f Inr by (auto simp: attempts_def)
  qed
qed

lemma set_brightness_attempts:
  assumes "set_brightness max_brightness percent w s = (r, s')"
  shows "attempts w (r = Inl OSError \<and> \<not> read_fails w) s s' \<and>
         (r = Inl OSError \<and> \<not> read_fails w \<longrightarrow>
          (\<forall>n. flag_assigned w n \<noteq> Some False) \<longrightarrow> change_in_progress s')"
proof (cases "percent_to_internal max_brightness percent")
  case (Inl e)
  then have "r = Inl e" "s' = s" using assms by (simp_all add: set_brightness_def)
  moreover have "e \<noteq> OSError" using Inl percent_to_internal_not_io by metis
  ultimately show ?thesis by (simp add: attempts_refl)
next
  case (Inr t)
  show ?thesis
  proof (cases "read_fails w")
    case True
    then have "s' = s\<lparr>change_in_progress := False\<rparr>"
      using assms Inr by (simp add: set_brightness_def brightness_current_def)
    then show ?thesis using True by (simp add: attempts_def)
  next
    case False
    let ?s0 = "s\<lparr>change_in_progress := True\<rparr>"
    let ?b = "brightness_file s"
    obtain sign d where sd:
      "(if t > ?b then ramp w 1 (t - ?b) ?b ?s0 else ramp w (- 1) (?b - t) ?b ?s0) =
         ramp w sign d ?b ?s0"
      by (cases "t > ?b") auto
    obtain x s1 where rp: "ramp w sign d ?b ?s0 = (x, s1)" by (cases "ramp w sign d ?b ?s0")
    note f1 = ramp_attempts[OF rp]
    have sb: "set_brightness max_brightness percent w s =
        (case x of Inl e \<Rightarrow> (Inl e, s1) | Inr c \<Rightarrow> finish w c t s1)"
      using False Inr sd rp by (simp add: set_brightness_def brightness_current_def)
    have "attempts w (r = Inl OSError) ?s0 s' \<and>
          (r = Inl OSError \<longrightarrow>
           (\<forall>n. flag_assigned w n \<noteq> Some False) \<longrightarrow> change_in_progress s')"
    proof (cases x)
      case (Inl e)
      then have "r = Inl e" "s' = s1" using sb assms by simp_all
      then show ?thesis using f1 Inl by simp
    next
      case (Inr c)
      then have fin: "finish w c t s1 = (r, s')" using sb assms by simp
      note f2 = finish_attempts[OF fin]
      have "attempts w False ?s0 s1" using f1 Inr by simp
      then have "attempts w (r = Inl OSError) ?s0 s'" using f2 attempts_trans by blast
      then show ?thesis using f1 f2 by simp
    qed
    then show ?thesis using False by (auto simp: attempts_def)
  qed
qed

text \<open>
  C3, as amended. When the world makes a write attempt of a call of \<open>set_brightness\<close>
  fail, the call exits with that error; the failing attempt is the last one the call
  makes, so nothing is retried and nothing is written after it, and the log holds
  exactly the attempts before it. The flag is not cleared: unless another call cleared
  it, \<open>change_in_progress\<close> is still set on exit.
\<close>

theorem write_error_propagates:
  assumes "set_brightness max_brightness percent w s = (r, s')"
    and "write_calls s \<le> i" "i < write_calls s'" "write_fails w i"
  shows "r = Inl OSError \<and> write_calls s' = Suc i \<and>
         (\<exists>ws. written s' = written s @ ws \<and> write_calls s + length ws = i) \<and>
         ((\<forall>n. flag_assigned w n \<noteq> Some False) \<longrightarrow> change_in_progress s')"
proof -
  note f = set_brightness_attempts[OF assms(1)]
  let ?failed = "r = Inl OSError \<and> \<not> read_fails w"
  obtain ws where ws: "written s' = written s @ ws"
    "\<forall>j<length ws. \<not> write_fails w (write_calls s + j)"
    "if ?failed
     then write_calls s' = Suc (write_calls s + length ws) \<and>
          write_fails w (write_calls s + length ws)
     else write_calls s' = write_calls s + length ws"
    using f unfolding attempts_def by blast
  have notin: "\<not> i - write_calls s < length ws"
  proof
    assume "i - write_calls s < length ws"
    then have "\<not> write_fails w (write_calls s + (i - write_calls s))" using ws(2) by blast
    then show False using assms(2,4) by simp
  qed
  have failed: "?failed"
  proof (rule ccontr)
    assume "\<not> ?failed"
    then have "write_calls s' = write_calls s + length ws" using ws(3) by (simp split: if_splits)
    then show False using notin assms(2,3) by linarith
  qed
  then have wc: "write_calls s' = Suc (write_calls s + length ws)" using ws(3) by simp
  have i: "write_calls s + length ws = i" using wc notin assms(2,3) by linarith
  show ?thesis using failed wc i ws(1) f by auto
qed


text \<open>
  C3 as stated fails. Ramping from 0 to 500 with the second write failing: the call exits
  with the error after one logged write, and \<open>change_in_progress\<close> is still set.
\<close>

theorem write_error_leaves_flag_set:
  "set_brightness 1000 (PyInt 50) (write_fails_at 1) (device_at 0) =
     (Inl OSError,
      \<lparr>brightness_file = 25, change_in_progress = True, written = [(StepWrite, 25)],
       write_calls = 2, flag_reads = 2\<rparr>)"
  by code_simp

text \<open>
  C2 at a concrete run. Ramping from 0 to 500, with the flag cleared by another call
  after two completed steps: the loop stops and the remainder is skipped, but the write
  under the comment \<^verbatim>\<open># Ensure brightness is correct at the end\<close> is not guarded by the
  flag and puts the device at the target of the cancelled run.
\<close>

theorem cancelled_run_still_corrects:
  "set_brightness 1000 (PyInt 50) (cancelled_at 2) (device_at 0) =
     (Inr (),
      \<lparr>brightness_file = 500, change_in_progress = False,
       written = [(StepWrite, 25), (StepWrite, 50), (CorrectiveWrite, 500)],
       write_calls = 3, flag_reads = 4\<rparr>)"
  by code_simp

text \<open>
  C6 as stated fails. From 495 to 500 no full step fits; the one device write of the run
  is the remainder write after the loop, and no corrective write is made.
\<close>

theorem zero_steps_remainder_write:
  "set_brightness 1000 (PyInt 50) undisturbed (device_at 495) =
     (Inr (),
      \<lparr>brightness_file = 500, change_in_progress = False,
       written = [(RemainderWrite, 500)],
       write_calls = 1, flag_reads = 1\<rparr>)"
  by code_simp

lemma rounded_ramp_writes:
  "written (snd (set_brightness 1000 (PyInt 50) undisturbed (device_at 471))) =
     [(StepWrite, 496), (RemainderWrite, 499), (CorrectiveWrite, 500)]"
  by code_simp

lemma small_distances:
  "\<forall>d\<in>set [0..24].
     (case int_truediv d BRIGHTNESS_STEP of
        Inl e \<Rightarrow> False
      | Inr q \<Rightarrow>
          (case modf q of
             (ds, fs) \<Rightarrow>
               int_of_float fs = Inr 0 \<and>
               (case float_mul_int ds BRIGHTNESS_STEP of
                  Inl e \<Rightarrow> False
                | Inr p \<Rightarrow> int_of_float p = Inr d)))"
  by code_simp


lemma small_distance:
  assumes "0 \<le> d" "d < 25"
  shows "\<exists>q ds fs p. int_truediv d BRIGHTNESS_STEP = Inr q \<and> modf q = (ds, fs) \<and>
           int_of_float fs = Inr 0 \<and> float_mul_int ds BRIGHTNESS_STEP = Inr p \<and>
           int_of_float p = Inr d"
proof -
  have "d \<in> set [0..24]" using assms by simp
  with small_distances have
    "case int_truediv d BRIGHTNESS_STEP of
        Inl e \<Rightarrow> False
      | Inr q \<Rightarrow>
          (case modf q of
             (ds, fs) \<Rightarrow>
               int_of_float fs = Inr 0 \<and>
               (case float_mul_int ds BRIGHTNESS_STEP of
                  Inl e \<Rightarrow> False
                | Inr p \<Rightarrow> int_of_float p = Inr d))"
    by (rule bspec)
  then show ?thesis by (auto split: sum.splits prod.splits)
qed

lemma remainder_step_sites:
  assumes "remainder_step w sign f b s = (r, s')"
  shows "\<exists>ws. written s' = written s @ ws \<and> (\<forall>e\<in>set ws. fst e \<noteq> StepWrite)"
  using assms
  by (auto simp: remainder_step_def read_flag_def write_brightness_value_def Let_def
      split: if_splits sum.splits)

lemma finish_sites:
  assumes "finish w b t s = (r, s')"
  shows "\<exists>ws. written s' = written s @ ws \<and> (\<forall>e\<in>set ws. fst e \<noteq> StepWrite)"
  using assms
  by (auto simp: finish_def write_brightness_value_def split: if_splits)

lemma ramp_small:
  assumes "0 \<le> d" "d < 25"
  shows "\<exists>ds p. ramp w sign d b s = remainder_step w sign ds b s \<and>
           float_mul_int ds BRIGHTNESS_STEP = Inr p \<and> int_of_float p = Inr d"
proof -
  obtain q ds fs p where "int_truediv d BRIGHTNESS_STEP = Inr q" "modf q = (ds, fs)"
    "int_of_float fs = Inr 0" "float_mul_int ds BRIGHTNESS_STEP = Inr p" "int_of_float p = Inr d"
    using small_distance[OF assms] by blast
  then show ?thesis by (auto simp: ramp_def split: prod.splits)
qed

lemma ramp_small_sites:
  assumes "0 \<le> d" "d < 25" "ramp w sign d b s = (r, s')"
  shows "\<exists>ws. written s' = written s @ ws \<and> (\<forall>e\<in>set ws. fst e \<noteq> StepWrite)"
proof -
  obtain ds where "ramp w sign d b s = remainder_step w sign ds b s"
    using ramp_small[OF assms(1,2)] by blast
  with assms(3) show ?thesis using remainder_step_sites by simp
qed

lemma ramp_small_completes:
  assumes "0 \<le> d" "d < 25"
    and "\<forall>n. \<not> write_fails w n" "\<forall>n. flag_assigned w n \<noteq> Some False"
    and "change_in_progress s"
  shows "ramp w sign d b s =
           (Inr (b + sign * d),
            s\<lparr>brightness_file := b + sign * d,
              written := written s @ [(RemainderWrite, b + sign * d)],
              write_calls := Suc (write_calls s),
              flag_reads := Suc (flag_reads s)\<rparr>)"
proof -
  obtain ds p where r: "ramp w sign d b s = remainder_step w sign ds b s"
    and m: "float_mul_int ds BRIGHTNESS_STEP = Inr p" and i: "int_of_float p = Inr d"
    using ramp_small[OF assms(1,2)] by blast
  have rf: "read_flag w s =
      (True, s\<lparr>change_in_progress := True, flag_reads := Suc (flag_reads s)\<rparr>)"
    using assms(4,5) by (rule read_flag_not_cancelled)
  have c: "s\<lparr>change_in_progress := True\<rparr> = s" using assms(5) by simp
  show ?thesis
    using assms(3,5) by (simp add: r remainder_step_def rf m i write_brightness_value_def)
qed

text \<open>
  C6, as amended. When no full step fits between the current value and the target, the
  loop body never runs: whatever the world does, the call makes no step write. When
  moreover nothing fails and the flag is never found cleared, the call makes exactly one
  device write, the remainder write after the loop, which already writes the target, and
  no corrective write follows.
\<close>

theorem zero_steps_remainder_only:
  assumes "percent_to_internal max_brightness percent = Inr target"
    and "\<bar>target - brightness_file s\<bar> div 25 = 0"
  shows "(\<exists>ws. written (snd (set_brightness max_brightness percent w s)) = written s @ ws \<and>
            (\<forall>e\<in>set ws. fst e \<noteq> StepWrite)) \<and>
         (\<not> read_fails w \<and> (\<forall>n. \<not> write_fails w n) \<and>
          (\<forall>n. flag_assigned w n \<noteq> Some False) \<longrightarrow>
          set_brightness max_brightness percent w s =
            (Inr (),
             s\<lparr>brightness_file := target, change_in_progress := False,
               written := written s @ [(RemainderWrite, target)],
               write_calls := Suc (write_calls s),
               flag_reads := Suc (flag_reads s)\<rparr>))"
proof -
  let ?s0 = "s\<lparr>change_in_progress := True\<rparr>"
  let ?b = "brightness_file s"
  have lt: "\<bar>target - ?b\<bar> < 25" using assms(2) by presburger
  define sign :: int where "sign = (if target > ?b then 1 else - 1)"
  define d where "d = \<bar>target - ?b\<bar>"
  have d: "0 \<le> d" "d < 25" using lt by (simp_all add: d_def)
  have sd: "?b + sign * d = target" by (simp add: sign_def d_def)
  have run: "(if target > ?b then ramp w 1 (target - ?b) ?b ?s0
              else ramp w (- 1) (?b - target) ?b ?s0) = ramp w sign d ?b ?s0"
    by (simp add: sign_def d_def)
  have first: "\<exists>ws. written (snd (set_brightness max_brightness percent w s)) = written s @ ws \<and>
            (\<forall>e\<in>set ws. fst e \<noteq> StepWrite)"
  proof (cases "read_fails w")
    case True
    then show ?thesis using assms(1) by (simp add: set_brightness_def brightness_current_def)
  next
    case False
    obtain x s1 where rp: "ramp w sign d ?b ?s0 = (x, s1)" by (cases "ramp w sign d ?b ?s0")
    obtain ws1 where w1: "written s1 = written s @ ws1" "\<forall>e\<in>set ws1. fst e \<noteq> StepWrite"
      using ramp_small_sites[OF d rp] by auto
    have sb: "set_brightness max_brightness percent w s =
        (case x of Inl e \<Rightarrow> (Inl e, s1) | Inr c \<Rightarrow> finish w c target s1)"
      using False assms(1) run rp by (simp add: set_brightness_def brightness_current_def)
    show ?thesis
    proof (cases x)
      case (Inl e)
      then show ?thesis using sb w1 by simp
    next
      case (Inr c)
      obtain y s2 where fin: "finish w c target s1 = (y, s2)" by (cases "finish w c target s1")
      obtain ws2 where w2: "written s2 = written s1 @ ws2" "\<forall>e\<in>set ws2. fst e \<noteq> StepWrite"
        using finish_sites[OF fin] by auto
      have "written s2 = written s @ (ws1 @ ws2)" using w1 w2 by simp
      moreover have "\<forall>e\<in>set (ws1 @ ws2). fst e \<noteq> StepWrite" using w1 w2 by auto
      ultimately show ?thesis using sb Inr fin by (metis snd_conv sum.simps(6))
    qed
  qed
  have second: "set_brightness max_brightness percent w s =
            (Inr (),
             s\<lparr>brightness_file := target, change_in_progress := False,
               written := written s @ [(RemainderWrite, target)],
               write_calls := Suc (write_calls s),
               flag_reads := Suc (flag_reads s)\<rparr>)"
    if h: "\<not> read_fails w" "\<forall>n. \<not> write_fails w n" "\<forall>n. flag_assigned w n \<noteq> Some False"
  proof -
    have act: "change_in_progress ?s0" by simp
    show ?thesis
      using h(1) assms(1) run
      by (simp add: set_brightness_def brightness_current_def
          ramp_small_completes[OF d h(2,3) act] sd finish_def)
  qed
  from first second show ?thesis by blast
qed

theorem set_brightness_converges_witness:
  "percent_to_internal 1000 (PyInt 50) = Inr 500 \<and>
   \<not> read_fails undisturbed \<and> (\<forall>n. \<not> write_fails undisturbed n) \<and>
   (\<forall>n. flag_assigned undisturbed n \<noteq> Some False) \<and>
   \<bar>500 - brightness_file (device_at 471)\<bar> < 2 ^ 1024 \<and>
   written (snd (set_brightness 1000 (PyInt 50) undisturbed (device_at 471))) =
     [(StepWrite, 496), (RemainderWrite, 499), (CorrectiveWrite, 500)] \<and>
   (\<exists>s' ws. set_brightness 1000 (PyInt 50) undisturbed (device_at 471) = (Inr (), s') \<and>
      written s' = written (device_at 471) @ ws \<and> ws \<noteq> [] \<and> snd (last ws) = 500 \<and>
      brightness_file s' = 500 \<and> \<not> change_in_progress s')"
proof -
  have h: "percent_to_internal 1000 (PyInt 50) = Inr 500" by code_simp
  have r: "\<not> read_fails undisturbed" and f: "\<forall>n. \<not> write_fails undisturbed n"
    and c: "\<forall>n. flag_assigned undisturbed n \<noteq> Some False"
    by (simp_all add: undisturbed_def)
  have d: "\<bar>500 - brightness_file (device_at 471)\<bar> < 2 ^ 1024"
    by (simp add: device_at_def)
  note t = set_brightness_converges [OF h r f c d]
  show ?thesis by (intro conjI h r f c d rounded_ramp_writes t)
qed

theorem write_error_propagates_witness:
  "set_brightness 1000 (PyInt 50) (write_fails_at 3) (device_at 0) =
     (Inl OSError,
      \<lparr>brightness_file = 75, change_in_progress = True,
       written = [(StepWrite, 25), (StepWrite, 50), (StepWrite, 75)],
       write_calls = 4, flag_reads = 4\<rparr>) \<and>
   write_calls (device_at 0) \<le> 3 \<and>
   3 < write_calls \<lparr>brightness_file = 75, change_in_progress = True,
         written = [(StepWrite, 25), (StepWrite, 50), (StepWrite, 75)],
         write_calls = 4, flag_reads = 4\<rparr> \<and>
   write_fails (write_fails_at 3) 3 \<and>
   (\<forall>n. flag_assigned (write_fails_at 3) n \<noteq> Some False) \<and>
   change_in_progress \<lparr>brightness_file = 75, change_in_progress = True,
         written = [(StepWrite, 25), (StepWrite, 50), (StepWrite, 75)],
         write_calls = 4, flag_reads = 4\<rparr>"
proof -
  have h: "set_brightness 1000 (PyInt 50) (write_fails_at 3) (device_at 0) =
     (Inl OSError,
      \<lparr>brightness_file = 75, change_in_progress = True,
       written = [(StepWrite, 25), (StepWrite, 50), (StepWrite, 75)],
       write_calls = 4, flag_reads = 4\<rparr>)"
    by code_simp
  have a: "write_calls (device_at 0) \<le> 3" by (simp add: device_at_def)
  have b: "3 < write_calls \<lparr>brightness_file = 75, change_in_progress = True,
         written = [(StepWrite, 25), (StepWrite, 50), (StepWrite, 75)],
         write_calls = 4, flag_reads = 4\<rparr>" by simp
  have c: "write_fails (write_fails_at 3) 3" by (simp add: write_fails_at_def)
  have n: "\<forall>n. flag_assigned (write_fails_at 3) n \<noteq> Some False"
    by (simp add: write_fails_at_def undisturbed_def)
  note t = write_error_propagates [OF h a b c]
  from t n have f: "change_in_progress \<lparr>brightness_file = 75, change_in_progress = True,
         written = [(StepWrite, 25), (StepWrite, 50), (StepWrite, 75)],
         write_calls = 4, flag_reads = 4\<rparr>" by blast
  show ?thesis by (intro conjI h a b c n f)
qed

theorem zero_steps_remainder_only_witness:
  "percent_to_internal 1000 (PyInt 50) = Inr 500 \<and>
   \<bar>500 - brightness_file (device_at 490)\<bar> div 25 = 0 \<and>
   \<not> read_fails undisturbed \<and> (\<forall>n. \<not> write_fails undisturbed n) \<and>
   (\<forall>n. flag_assigned undisturbed n \<noteq> Some False) \<and>
   set_brightness 1000 (PyInt 50) undisturbed (device_at 490) =
     (Inr (),
      \<lparr>brightness_file = 500, change_in_progress = False,
       written = [(RemainderWrite, 500)], write_calls = 1, flag_reads = 1\<rparr>)"
proof -
  have h: "percent_to_internal 1000 (PyInt 50) = Inr 500" by code_simp
  have z: "\<bar>500 - brightness_file (device_at 490)\<bar> div 25 = 0"
    by (simp add: device_at_def)
  have r: "\<not> read_fails undisturbed \<and> (\<forall>n. \<not> write_fails undisturbed n) \<and>
     (\<forall>n. flag_assigned undisturbed n \<noteq> Some False)"
    by (simp add: undisturbed_def)
  from zero_steps_remainder_only [OF h z, of undisturbed] r
  have "set_brightness 1000 (PyInt 50) undisturbed (device_at 490) =
      (Inr (),
       (device_at 490)\<lparr>brightness_file := 500, change_in_progress := False,
         written := written (device_at 490) @ [(RemainderWrite, 500)],
         write_calls := Suc (write_calls (device_at 490)),
         flag_reads := Suc (flag_reads (device_at 490))\<rparr>)"
    by blast
  then show ?thesis using h z r by (simp add: device_at_def)
qed

section \<open>The change watcher\<close>

lemma percentage_of_valid:
  assumes "0 < m" "0 \<le> v" "v \<le> m"
  shows "percentage_of m v =
           Inr (trunc (round_double (round_double (of_int v / of_int m) * 100)))"
proof -
  let ?q = "round_double (of_int v / of_int m)"
  have q0: "(0::rat) \<le> of_int v / of_int m" and q1: "(of_int v / of_int m :: rat) \<le> 1"
    using assms by simp_all
  have d: "int_truediv v m = Inr (Finite ?q)"
    using assms(1) q0 order_trans[OF q1 one_le_huge] by (intro int_truediv_small) simp_all
  have u: "0 \<le> ?q" "?q \<le> 1" using round_double_unit[OF q0 q1] by simp_all
  have "?q * 100 \<le> 2 ^ 53" using u by simp
  then have "?q * 100 \<le> 2 ^ 1023" by (rule order_trans[OF _ small_le_huge])
  moreover have "0 \<le> ?q * 100" using u by simp
  ultimately have "to_float (?q * 100) = Finite (round_double (?q * 100))"
    by (intro to_float_small)
  then show ?thesis by (simp add: percentage_of_def d float_mul_int_def)
qed

lemma remdups_adj_hd: "\<exists>ys. remdups_adj (v # vs) = v # ys"
  by (auto simp: remdups_adj_Cons split: list.splits)

lemma observe_all_published:
  assumes "0 < m" "\<forall>v\<in>set obs. 0 \<le> v \<and> v \<le> m"
  shows "map (\<lambda>e. Inr (fst e)) (published (observe_all m obs c)) =
           map (\<lambda>e. Inr (fst e)) (published c) @
           map (percentage_of m) (tl (remdups_adj (last_value c # obs)))"
  using assms(2)
proof (induction obs arbitrary: c)
  case Nil
  then show ?case by simp
next
  case (Cons v vs)
  then have v: "0 \<le> v" "v \<le> m" and vs: "\<forall>v\<in>set vs. 0 \<le> v \<and> v \<le> m" by simp_all
  show ?case
  proof (cases "v = last_value c")
    case True
    then show ?thesis
      using Cons.IH[OF vs, of c] by (simp add: publish_brightness_changed_def)
  next
    case False
    obtain p where p: "percentage_of m v = Inr p"
      using percentage_of_valid[OF assms(1) v] by blast
    define c' where "c' = snd (publish_brightness_changed m (Inr v) c)"
    have pub: "published c' = published c @ [(p, publisher_id c)]"
      and lv: "last_value c' = v"
      using False p by (simp_all add: c'_def publish_brightness_changed_def Let_def)
    have step: "observe_all m (v # vs) c = observe_all m vs c'" by (simp add: c'_def)
    obtain ys where ys: "remdups_adj (v # vs) = v # ys"
      using remdups_adj_hd[of v vs] by (rule exE)
    have l: "tl (remdups_adj (last_value c # v # vs)) = v # ys"
      using False ys by simp
    show ?thesis
      using Cons.IH[OF vs, of c'] by (simp add: pub lv l ys p del: remdups_adj.simps flip: c'_def)
  qed
qed

lemma remdups_adj_fresh: "l \<notin> set xs \<Longrightarrow> tl (remdups_adj (l # xs)) = remdups_adj xs"
  by (cases xs) auto

text \<open>
  C4. Starting from the state set by \<open>__init__\<close>, where \<open>last_value\<close> is -1, and for
  every sequence of observed raw values between 0 and \<open>max_brightness\<close>, the events
  published are exactly the percentages of the sequence with adjacent repetitions
  removed: an observation equal to the previous one publishes nothing, every other one
  publishes once, and the first one always publishes.
\<close>

theorem observations_published_once:
  assumes "0 < max_brightness" "\<forall>v\<in>set obs. 0 \<le> v \<and> v \<le> max_brightness"
  shows "map (\<lambda>e. Inr (fst e)) (published (observe_all max_brightness obs init_component)) =
           map (percentage_of max_brightness) (remdups_adj obs) \<and>
         length (published (observe_all max_brightness obs init_component)) =
           length (remdups_adj obs)"
proof -
  have fresh: "last_value init_component \<notin> set obs"
    using assms(2) by (auto simp: init_component_def)
  have eq: "map (\<lambda>e. Inr (fst e)) (published (observe_all max_brightness obs init_component)) =
           map (percentage_of max_brightness) (remdups_adj obs)"
    using observe_all_published[OF assms, of init_component] remdups_adj_fresh[OF fresh]
    by (simp add: init_component_def)
  have "length (map (\<lambda>e. Inr (fst e) :: error + int)
            (published (observe_all max_brightness obs init_component))) =
        length (map (percentage_of max_brightness) (remdups_adj obs))"
    by (simp only: eq)
  then have "length (published (observe_all max_brightness obs init_component)) =
        length (remdups_adj obs)"
    by simp
  with eq show ?thesis by simp
qed

theorem observations_published_once_witness:
  "(0::int) < 4882 \<and>
   map (\<lambda>e. Inr (fst e)) (published (observe_all 4882 [2441, 2441, 0, 2441] init_component)) =
     map (percentage_of 4882) [2441, 0, 2441] \<and>
   length (published (observe_all 4882 [2441, 2441, 0, 2441] init_component)) = 3"
  using observations_published_once [of 4882 "[2441, 2441, 0, 2441]"]
  by simp

text \<open>
  C10. An observation whose raw value equals \<open>last_value\<close> returns before anything is
  published or assigned: the whole state of the component is unchanged. In particular,
  when that value is also the requested one, the publisher is not reset.
\<close>

theorem duplicate_observation_unchanged:
  assumes "current_value = last_value c"
  shows "publish_brightness_changed max_brightness (Inr current_value) c = (Inr (), c)"
  using assms by (simp add: publish_brightness_changed_def)

theorem duplicate_observation_unchanged_witness:
  "(500::int) =
     last_value \<lparr>publisher_id = Some ''A'', requested_value_internal = 500,
                 last_value = 500, published = [(50, None)]\<rparr> \<and>
   publish_brightness_changed 1000 (Inr 500)
     \<lparr>publisher_id = Some ''A'', requested_value_internal = 500,
      last_value = 500, published = [(50, None)]\<rparr> =
   (Inr (),
    \<lparr>publisher_id = Some ''A'', requested_value_internal = 500,
     last_value = 500, published = [(50, None)]\<rparr>)"
  using duplicate_observation_unchanged [of 500
      "\<lparr>publisher_id = Some ''A'', requested_value_internal = 500,
        last_value = 500, published = [(50, None)]\<rparr>" 1000]
  by simp

text \<open>
  C5 at a concrete run. The device is at 500 and that value was published. A call for
  50 percent by \<open>A\<close> with \<open>max_brightness\<close> 1000 requests 500 again and writes it once.
  The observation of that write is a duplicate, so the handler returns before the
  publisher is reset, and a later change to 300 made by nobody is published as made by
  \<open>A\<close>.
\<close>

theorem duplicate_target_keeps_publisher:
  "fst (actually_set_brightness 1000 (PyInt 50) (Some ''A'') undisturbed
          (observe_all 1000 [500] init_component, device_at 500)) = Inr () \<and>
   written (snd (snd (actually_set_brightness 1000 (PyInt 50) (Some ''A'') undisturbed
          (observe_all 1000 [500] init_component, device_at 500)))) = [(RemainderWrite, 500)] \<and>
   published (observe_all 1000 [500, 300]
     (fst (snd (actually_set_brightness 1000 (PyInt 50) (Some ''A'') undisturbed
          (observe_all 1000 [500] init_component, device_at 500))))) =
     [(50, None), (30, Some ''A'')]"
  by code_simp

end
